theory Spec2Isabelle
  imports Main "HOL-Library.Signed_Division"
begin

section \<open>Ethiopian date utilities: the conversion engine\<close>

text \<open>
  The functions of \<^verbatim>\<open>ethiopianDateUtils.ts\<close> over mathematical integers:
  \<open>number\<close> is read as \<open>int\<close>. The host computes in doubles, which are exact on whole
  numbers below \<open>2^53 = 9007199254740992\<close> in size and round above. So a definition
  below equals the code as long as its arguments are whole and every number it
  computes stays below \<open>2^53\<close>; in the conversions of the dates that
  \<open>isValidEthiopianDate\<close> accepts no number passes 1200000. Where a theorem for a claim
  ranges over years or counts that the code would round, it states the bound as a
  hypothesis.
  \<^item> \<^verbatim>\<open>Math.floor(a / b)\<close> with \<open>b > 0\<close> is \<open>a div b\<close> (rounds down);
  \<^item> \<^verbatim>\<open>a % b\<close> is \<open>a smod b\<close> (the remainder takes the sign of \<open>a\<close>);
  \<^item> \<^verbatim>\<open>Math.min\<close> is \<open>min\<close>, and \<^verbatim>\<open>x || 7\<close> is \<open>if x = 0 then 7 else x\<close>.
\<close>

subsection \<open>Constants\<close>

definition ETHIOPIAN_CALENDAR_OFFSET :: int where
  "ETHIOPIAN_CALENDAR_OFFSET = 2431"

definition ETHIOPIAN_DAYS_IN_MONTH :: int where
  "ETHIOPIAN_DAYS_IN_MONTH = 30"

definition ETHIOPIAN_LEAP_YEAR_DAYS :: int where
  "ETHIOPIAN_LEAP_YEAR_DAYS = 6"

definition ETHIOPIAN_NORMAL_YEAR_DAYS :: int where
  "ETHIOPIAN_NORMAL_YEAR_DAYS = 5"

subsection \<open>Data\<close>

text \<open>The interface \<^verbatim>\<open>EtDate\<close>; the class \<^verbatim>\<open>EthiopianDate\<close> has the same three fields.\<close>

record EtDate =
  Day :: int
  Month :: int
  Year :: int

type_synonym EthiopianDate = EtDate

text \<open>
  The host's \<^verbatim>\<open>Date\<close>, by the calendar fields it shows in local time:
  \<open>fullYear\<close> is \<^verbatim>\<open>getFullYear()\<close>, \<open>monthIndex\<close> is \<^verbatim>\<open>getMonth()\<close> (0 to 11) and
  \<open>dayOfMonth\<close> is \<^verbatim>\<open>getDate()\<close>. A date object is well formed when the fields name a
  day of the proleptic Gregorian calendar (\<open>isCalendarDay\<close> below). The engine
  reads nothing else of a date object, so the time of day is left out: a date
  object stands for its whole local day.

  \<open>newDate y m d\<close> is \<^verbatim>\<open>new Date(y, m, d)\<close>: local midnight of that day. ECMAScript
  reads a year argument from 0 to 99 as 1900 + y. Month and day arguments outside
  their ranges are carried over by the host; \<open>newDate\<close> does not model the carry.
  The host has date objects only for the moments within 100000000 days of
  1 January 1970, which end in September of the year 275760; for a later day
  \<^verbatim>\<open>new Date(y, m, d)\<close> is an invalid date, with no calendar fields, and \<open>newDate\<close>
  does not model it either. So \<open>newDate y m d\<close> is the host's date object for a
  calendar day with a year argument up to 275759.
  The engine builds date objects in \<open>gregorianDateFromDayNo\<close> only, and
  \<open>gregorianDateFromDayNo_inverse\<close> shows that it builds calendar days of the years
  from 100 on from the day numbers above 36524; the statements about it stop at
  day number 100000000, in the year 273791.
\<close>

record Date =
  fullYear :: int
  monthIndex :: int
  dayOfMonth :: int

definition newDate :: "int \<Rightarrow> int \<Rightarrow> int \<Rightarrow> Date" where
  "newDate y m d =
     \<lparr>fullYear = (if 0 \<le> y \<and> y \<le> 99 then 1900 + y else y), monthIndex = m, dayOfMonth = d\<rparr>"

text \<open>\<^verbatim>\<open>throw new Error(message)\<close>\<close>

datatype error = Error string

subsection \<open>Leap years and month lengths\<close>

definition isEthiopianLeapYear :: "int \<Rightarrow> bool" where
  "isEthiopianLeapYear year = (year smod 4 = 3)"

definition getEthiopianMonthLength :: "int \<Rightarrow> int \<Rightarrow> int" where
  "getEthiopianMonthLength month year =
     (if month = 13
      then (if isEthiopianLeapYear year then ETHIOPIAN_LEAP_YEAR_DAYS
            else ETHIOPIAN_NORMAL_YEAR_DAYS)
      else ETHIOPIAN_DAYS_IN_MONTH)"

definition isLeapYearGr :: "int \<Rightarrow> bool" where
  "isLeapYearGr year = (year smod 4 = 0 \<and> (year smod 100 \<noteq> 0 \<or> year smod 400 = 0))"

definition getGregorianMonthLength :: "int \<Rightarrow> int \<Rightarrow> int" where
  "getGregorianMonthLength index year =
     (if index = 1 \<or> index = 3 \<or> index = 5 \<or> index = 7 \<or> index = 8 \<or> index = 10 \<or> index = 12
      then 31
      else if index = 2 then (if isLeapYearGr year then 29 else 28)
      else 30)"

subsection \<open>Day numbers, Ethiopian side\<close>

text \<open>
  Both functions equal the code while the day number is below \<open>2^53\<close>, which holds
  for every year up to \<open>10^13\<close>; past that the code's sums round to a neighbouring
  double.
\<close>

definition getDayNumber :: "EtDate \<Rightarrow> int" where
  "getDayNumber ethiopianDate =
     (let leapYearCycles = Year ethiopianDate div 4;
          remainingYears = Year ethiopianDate smod 4
      in leapYearCycles * 1461 + remainingYears * 365
         + (Month ethiopianDate - 1) * ETHIOPIAN_DAYS_IN_MONTH + Day ethiopianDate - 1)"

definition createEthiopianDate :: "int \<Rightarrow> EthiopianDate" where
  "createEthiopianDate dayNumber =
     (let leapYearCycles = dayNumber div 1461;
          remainingDays = dayNumber smod 1461;
          yearsInCycle = remainingDays div 365;
          daysInYear = remainingDays smod 365
      in if remainingDays \<noteq> 1460
         then \<lparr>Day = daysInYear smod 30 + 1, Month = daysInYear div 30 + 1,
               Year = leapYearCycles * 4 + yearsInCycle\<rparr>
         else \<lparr>Day = 6, Month = 13, Year = leapYearCycles * 4 + yearsInCycle - 1\<rparr>)"

subsection \<open>Day numbers, Gregorian side\<close>

text \<open>The \<^verbatim>\<open>for\<close> loop of \<^verbatim>\<open>addGregorianMonths\<close>, with its counter and accumulator.\<close>

function addGregorianMonths_loop :: "int \<Rightarrow> int \<Rightarrow> int \<Rightarrow> int \<Rightarrow> int" where
  "addGregorianMonths_loop currentMonth month year totalDays =
     (if currentMonth < month
      then addGregorianMonths_loop (currentMonth + 1) month year
             (totalDays + getGregorianMonthLength currentMonth year)
      else totalDays)"
  by pat_completeness auto
termination
  by (relation "measure (\<lambda>(currentMonth, month, year, totalDays). nat (month - currentMonth))") auto

definition addGregorianMonths :: "int \<Rightarrow> int \<Rightarrow> int" where
  "addGregorianMonths month year = addGregorianMonths_loop 1 month year 0"

text \<open>
  The parameter is typed \<^verbatim>\<open>Date\<close>, so the \<^verbatim>\<open>instanceof\<close> guard that logs and
  returns 0 is never taken on a value of this model.
\<close>

definition getGregorianDayNumber :: "Date \<Rightarrow> int" where
  "getGregorianDayNumber gregorianDate =
     (let previousYears = fullYear gregorianDate - 1;
          leapYears = previousYears div 4 - previousYears div 100 + previousYears div 400;
          nonLeapYears = previousYears - leapYears;
          daysInPreviousYears = leapYears * 366 + nonLeapYears * 365;
          daysInCurrentYear =
            addGregorianMonths (monthIndex gregorianDate + 1) (fullYear gregorianDate)
            + dayOfMonth gregorianDate
      in daysInPreviousYears + daysInCurrentYear)"

text \<open>
  The \<^verbatim>\<open>while (true)\<close> loop of \<^verbatim>\<open>gregorianDateFromDayNo\<close>: it returns the month
  and the day at the \<^verbatim>\<open>break\<close>. Every month has at least 28 days, so the day count
  falls on each turn and the loop ends on every input.
\<close>

function monthWalk :: "int \<Rightarrow> int \<Rightarrow> int \<Rightarrow> int \<times> int" where
  "monthWalk month year dayNumber =
     (let daysInCurrentMonth = getGregorianMonthLength month year
      in if dayNumber \<le> daysInCurrentMonth then (month, dayNumber)
         else monthWalk (month + 1) year (dayNumber - daysInCurrentMonth))"
  by pat_completeness auto
termination
  by (relation "measure (\<lambda>(month, year, dayNumber). nat dayNumber)")
     (auto simp: getGregorianMonthLength_def split: if_splits)

definition gregorianDateFromDayNo :: "int \<Rightarrow> Date" where
  "gregorianDateFromDayNo dayNumber0 =
     (let fourHundredYearPeriods = dayNumber0 div 146097;
          dayNumber1 = dayNumber0 smod 146097
      in if dayNumber1 = 0 then newDate (400 * fourHundredYearPeriods) (12 - 1) 31
      else
      let hundredYearPeriods = min (dayNumber1 div 36524) 3;
          dayNumber2 = dayNumber1 - hundredYearPeriods * 36524
      in if dayNumber2 = 0
         then newDate (400 * fourHundredYearPeriods + 100 * hundredYearPeriods) (12 - 1) 31
      else
      let fourYearPeriods = dayNumber2 div 1461;
          dayNumber3 = dayNumber2 smod 1461
      in if dayNumber3 = 0
         then newDate (400 * fourHundredYearPeriods + 100 * hundredYearPeriods
                       + 4 * fourYearPeriods) (12 - 1) 31
      else
      let singleYears = min (dayNumber3 div 365) 3;
          dayNumber4 = dayNumber3 - singleYears * 365
      in if dayNumber4 = 0
         then newDate (400 * fourHundredYearPeriods + 100 * hundredYearPeriods
                       + 4 * fourYearPeriods + singleYears) (12 - 1) 31
      else
      let year = 1 + (400 * fourHundredYearPeriods + 100 * hundredYearPeriods
                      + 4 * fourYearPeriods + singleYears);
          (month, day) = monthWalk 1 year dayNumber4
      in newDate year (month - 1) day)"

subsection \<open>The two conversions\<close>

definition toEthiopian :: "Date \<Rightarrow> EthiopianDate" where
  "toEthiopian gregorianDate =
     createEthiopianDate (getGregorianDayNumber gregorianDate - ETHIOPIAN_CALENDAR_OFFSET)"

definition toGregorian :: "EtDate \<Rightarrow> Date" where
  "toGregorian ethiopianDate =
     gregorianDateFromDayNo (getDayNumber ethiopianDate + ETHIOPIAN_CALENDAR_OFFSET)"

subsection \<open>Validation, arithmetic and comparison of Ethiopian dates\<close>

definition isValidEthiopianDate :: "EtDate \<Rightarrow> bool" where
  "isValidEthiopianDate ethiopianDate =
     (if Year ethiopianDate < 1000 \<or> Year ethiopianDate > 3000 then False
      else if Month ethiopianDate < 1 \<or> Month ethiopianDate > 13 then False
      else if Day ethiopianDate < 1 then False
      else if Day ethiopianDate
                > getEthiopianMonthLength (Month ethiopianDate) (Year ethiopianDate)
      then False
      else True)"

text \<open>
  The template literal of the two \<^verbatim>\<open>throw\<close> statements prints each field in
  decimal, as the host prints a whole number: a minus sign for a negative one, no
  leading zeros.
\<close>

definition digitChar :: "nat \<Rightarrow> char" where
  "digitChar d = char_of (48 + d)"

function showNat :: "nat \<Rightarrow> string" where
  "showNat n = (if n < 10 then [digitChar n] else showNat (n div 10) @ [digitChar (n mod 10)])"
  by pat_completeness auto
termination
  by (relation "measure id") auto

definition showInt :: "int \<Rightarrow> string" where
  "showInt i = (if i < 0 then CHR ''-'' # showNat (nat (- i)) else showNat (nat i))"

definition invalidDateMessage :: "EtDate \<Rightarrow> string" where
  "invalidDateMessage ethiopianDate =
     ''Invalid Ethiopian date '' @ showInt (Day ethiopianDate) @ ''-''
       @ showInt (Month ethiopianDate) @ ''-'' @ showInt (Year ethiopianDate)"

text \<open>
  \<open>addYearsToEthiopianDate\<close> equals the code while the new year is below \<open>2^53\<close> in
  size: the code's sum of two doubles rounds above that, and the leap test then
  reads the rounded year.
\<close>

definition addYearsToEthiopianDate :: "EtDate \<Rightarrow> int \<Rightarrow> error + EthiopianDate" where
  "addYearsToEthiopianDate ethiopianDate yearsToAdd =
     (if \<not> isValidEthiopianDate ethiopianDate
      then Inl (Error (invalidDateMessage ethiopianDate))
      else
        let newYear = Year ethiopianDate + yearsToAdd
        in if Month ethiopianDate = 13 \<and> Day ethiopianDate = 6
              \<and> \<not> isEthiopianLeapYear newYear
           then Inr \<lparr>Day = 5, Month = Month ethiopianDate, Year = newYear\<rparr>
           else Inr \<lparr>Day = Day ethiopianDate, Month = Month ethiopianDate, Year = newYear\<rparr>)"

definition addDaysToEthiopianDate :: "EtDate \<Rightarrow> int \<Rightarrow> error + EthiopianDate" where
  "addDaysToEthiopianDate ethiopianDate daysToAdd =
     (if \<not> isValidEthiopianDate ethiopianDate
      then Inl (Error (invalidDateMessage ethiopianDate))
      else Inr (createEthiopianDate (getDayNumber ethiopianDate + 1 + daysToAdd)))"

definition compareEthiopianDates :: "EtDate \<Rightarrow> EtDate \<Rightarrow> int" where
  "compareEthiopianDates firstDate secondDate =
     (if Year firstDate < Year secondDate then - 1
      else if Year firstDate > Year secondDate then 1
      else if Month firstDate < Month secondDate then - 1
      else if Month firstDate > Month secondDate then 1
      else if Day firstDate < Day secondDate then - 1
      else if Day firstDate > Day secondDate then 1
      else 0)"

subsection \<open>The weekday of a month's first day\<close>

text \<open>
  \<^verbatim>\<open>getUTCDay()\<close> is the host's, not the repository's; it is modelled from
  ECMAScript (\<open>DayFromYear\<close>, \<open>MakeDay\<close>, \<open>WeekDay\<close>). \<open>esLocalDay d\<close> counts the days
  from 1 January 1970 to the calendar day \<open>d\<close> (\<open>esDayWithinYear\<close> is the number of
  days before the first of the month with index 0 to 11). A date object made by
  \<^verbatim>\<open>new Date(y, m, d)\<close> is local midnight, and \<^verbatim>\<open>getUTCDay\<close> reads the weekday
  (Sunday is 0) of the day that moment falls on in UTC: with the environment's
  zone \<open>tz\<close> minutes ahead of UTC at that moment, the moment is minute
  \<open>esLocalDay d * 1440 - tz\<close> of the UTC time line. So the day read is \<open>d\<close> itself in a
  zone at or behind UTC, and the day before \<open>d\<close> in a zone ahead of UTC.
\<close>

definition esInLeapYear :: "int \<Rightarrow> bool" where
  "esInLeapYear y = (y mod 4 = 0 \<and> (y mod 100 \<noteq> 0 \<or> y mod 400 = 0))"

definition esDayFromYear :: "int \<Rightarrow> int" where
  "esDayFromYear y =
     365 * (y - 1970) + (y - 1969) div 4 - (y - 1901) div 100 + (y - 1601) div 400"

definition esDayWithinYear :: "int \<Rightarrow> bool \<Rightarrow> int" where
  "esDayWithinYear m leap =
     (if m = 0 then 0
      else if m = 1 then 31
      else (if leap then 1 else 0)
           + (if m = 2 then 59 else if m = 3 then 90 else if m = 4 then 120
              else if m = 5 then 151 else if m = 6 then 181 else if m = 7 then 212
              else if m = 8 then 243 else if m = 9 then 273 else if m = 10 then 304
              else 334))"

definition esLocalDay :: "Date \<Rightarrow> int" where
  "esLocalDay d =
     esDayFromYear (fullYear d) + esDayWithinYear (monthIndex d) (esInLeapYear (fullYear d))
     + dayOfMonth d - 1"

definition getUTCDay :: "int \<Rightarrow> Date \<Rightarrow> int" where
  "getUTCDay tz d = ((esLocalDay d * 1440 - tz) div 1440 + 4) mod 7"

text \<open>\<open>getMonthStartDay\<close>, with the environment's zone as an explicit argument.\<close>

definition getMonthStartDay :: "int \<Rightarrow> int \<Rightarrow> int \<Rightarrow> int" where
  "getMonthStartDay tz month year =
     (let gregorianDate = toGregorian \<lparr>Day = 1, Month = month, Year = year\<rparr>;
          utcDay = getUTCDay tz gregorianDate
      in ((if utcDay = 0 then 7 else utcDay) smod 7) + 1)"

subsection \<open>Well-formed dates\<close>

definition isCalendarDay :: "Date \<Rightarrow> bool" where
  "isCalendarDay d =
     (0 \<le> monthIndex d \<and> monthIndex d \<le> 11 \<and> 1 \<le> dayOfMonth d
      \<and> dayOfMonth d \<le> getGregorianMonthLength (monthIndex d + 1) (fullYear d))"

subsection \<open>Notions of the specification\<close>

text \<open>
  The lexicographic order on (Year, Month, Day), written from the words of the
  specification; \<open>compareEthiopianDates\<close> is compared with it below.
\<close>

definition lexLess :: "EtDate \<Rightarrow> EtDate \<Rightarrow> bool" where
  "lexLess a b =
     (Year a < Year b
      \<or> Year a = Year b \<and> (Month a < Month b \<or> Month a = Month b \<and> Day a < Day b))"

text \<open>
  A Gregorian day of the supported range: a calendar day whose Ethiopian year lies
  between 1000 and 3000, the years \<open>isValidEthiopianDate\<close> accepts.
\<close>

definition inSupportedRange :: "Date \<Rightarrow> bool" where
  "inSupportedRange g =
     (isCalendarDay g \<and> 1000 \<le> Year (toEthiopian g) \<and> Year (toEthiopian g) \<le> 3000)"

subsection \<open>Notions used in the proofs\<close>

text \<open>The length of a Gregorian year, by the leap test of the source.\<close>

definition yearLength :: "int \<Rightarrow> int" where
  "yearLength y = (if isLeapYearGr y then 366 else 365)"

text \<open>
  The value \<open>daysInPreviousYears\<close> of \<open>getGregorianDayNumber\<close> as a function of
  \<open>previousYears\<close>: the days of the years 1 to \<open>p\<close>.
\<close>

definition daysThroughYear :: "int \<Rightarrow> int" where
  "daysThroughYear p =
     (let leapYears = p div 4 - p div 100 + p div 400;
          nonLeapYears = p - leapYears
      in leapYears * 366 + nonLeapYears * 365)"

section \<open>Arithmetic of the host\<close>

lemma smod_nonneg: "0 \<le> a \<Longrightarrow> 0 < b \<Longrightarrow> (a::int) smod b = a mod b"
  by (simp add: signed_modulo_int_def sgn_if)

section \<open>The Ethiopian day number\<close>

lemma monthLength_le_30: "getEthiopianMonthLength m y \<le> 30"
  by (simp add: getEthiopianMonthLength_def ETHIOPIAN_DAYS_IN_MONTH_def
      ETHIOPIAN_LEAP_YEAR_DAYS_def ETHIOPIAN_NORMAL_YEAR_DAYS_def)

lemma valid_fields:
  assumes "isValidEthiopianDate e"
  shows "1000 \<le> Year e" "Year e \<le> 3000" "1 \<le> Month e" "Month e \<le> 13" "1 \<le> Day e"
    "Day e \<le> getEthiopianMonthLength (Month e) (Year e)"
  using assms by (auto simp: isValidEthiopianDate_def split: if_splits)

text \<open>Decoding a day number that is written out by cycle, year and day of the year.\<close>

lemma createEthiopianDate_decode:
  fixes c r x :: int
  assumes c: "0 \<le> c" and r: "0 \<le> r" "r \<le> 3" and x: "0 \<le> x" "x \<le> 364"
  shows "createEthiopianDate (1461 * c + (365 * r + x))
         = \<lparr>Day = x mod 30 + 1, Month = x div 30 + 1, Year = 4 * c + r\<rparr>"
proof -
  let ?n = "1461 * c + (365 * r + x)"
  have rem: "0 \<le> 365 * r + x" "365 * r + x < 1460" using r x by auto
  have n0: "0 \<le> ?n" using c rem by simp
  have q: "?n div 1461 = c"
    by (rule int_div_pos_eq [where r = "365 * r + x"]) (use rem in auto)
  have "?n mod 1461 = 365 * r + x"
    by (rule int_mod_pos_eq [where q = c]) (use rem in auto)
  then have m: "?n smod 1461 = 365 * r + x"
    using n0 by (simp add: smod_nonneg)
  have q2: "(365 * r + x) div 365 = r"
    by (rule int_div_pos_eq [where r = x]) (use x in auto)
  have "(365 * r + x) mod 365 = x"
    by (rule int_mod_pos_eq [where q = r]) (use x in auto)
  then have m2: "(365 * r + x) smod 365 = x"
    using rem by (simp add: smod_nonneg)
  have m3: "x smod 30 = x mod 30"
    using x by (simp add: smod_nonneg)
  show ?thesis
    unfolding createEthiopianDate_def Let_def q m q2 m2 m3
    using rem by (simp add: mult.commute)
qed

lemma createEthiopianDate_decode_sixth:
  fixes c :: int
  assumes c: "0 \<le> c"
  shows "createEthiopianDate (1461 * c + 1460) = \<lparr>Day = 6, Month = 13, Year = 4 * c + 3\<rparr>"
proof -
  let ?n = "1461 * c + 1460"
  have n0: "0 \<le> ?n" using c by simp
  have q: "?n div 1461 = c"
    by (rule int_div_pos_eq [where r = 1460]) auto
  have "?n mod 1461 = 1460"
    by (rule int_mod_pos_eq [where q = c]) auto
  then have m: "?n smod 1461 = 1460"
    using n0 by (simp add: smod_nonneg)
  show ?thesis
    unfolding createEthiopianDate_def Let_def q m
    by (simp add: mult.commute)
qed

lemma getDayNumber_encode:
  fixes y :: int
  assumes "0 \<le> y"
  shows "getDayNumber \<lparr>Day = d, Month = m, Year = y\<rparr>
         = 1461 * (y div 4) + (365 * (y mod 4) + ((m - 1) * 30 + d - 1))"
  using assms by (simp add: getDayNumber_def Let_def smod_nonneg ETHIOPIAN_DAYS_IN_MONTH_def)

lemma createEthiopianDate_getDayNumber_fields:
  fixes y m d :: int
  assumes y: "1 \<le> y" and m: "1 \<le> m" "m \<le> 13"
    and d: "1 \<le> d" "d \<le> getEthiopianMonthLength m y"
  shows "createEthiopianDate (getDayNumber \<lparr>Day = d, Month = m, Year = y\<rparr>)
         = \<lparr>Day = d, Month = m, Year = y\<rparr>"
proof -
  define c where "c = y div 4"
  define r where "r = y mod 4"
  define x where "x = (m - 1) * 30 + d - 1"
  have yr: "y = 4 * c + r" and r: "0 \<le> r" "r \<le> 3" and c: "0 \<le> c"
    using y by (auto simp: c_def r_def)
  have d30: "d \<le> 30" using d(2) monthLength_le_30 [of m y] by linarith
  have dn: "getDayNumber \<lparr>Day = d, Month = m, Year = y\<rparr> = 1461 * c + (365 * r + x)"
    using y by (simp add: getDayNumber_encode c_def r_def x_def)
  have xq: "x div 30 = m - 1"
    by (rule int_div_pos_eq [where r = "d - 1"]) (use d(1) d30 in \<open>auto simp: x_def\<close>)
  have xm: "x mod 30 = d - 1"
    by (rule int_mod_pos_eq [where q = "m - 1"]) (use d(1) d30 in \<open>auto simp: x_def\<close>)
  show ?thesis
  proof (cases "m = 13 \<and> d = 6")
    case True
    then have "isEthiopianLeapYear y"
      using d(2) by (auto simp: getEthiopianMonthLength_def ETHIOPIAN_NORMAL_YEAR_DAYS_def
          split: if_splits)
    then have "r = 3" using y by (simp add: isEthiopianLeapYear_def smod_nonneg r_def)
    moreover have "x = 365" using True by (simp add: x_def)
    ultimately have "getDayNumber \<lparr>Day = d, Month = m, Year = y\<rparr> = 1461 * c + 1460"
      using dn by simp
    then show ?thesis
      using createEthiopianDate_decode_sixth [OF c] True yr \<open>r = 3\<close> by simp
  next
    case False
    have "d \<le> 5" if "m = 13"
      using that False d(2)
      by (auto simp: getEthiopianMonthLength_def ETHIOPIAN_NORMAL_YEAR_DAYS_def
          ETHIOPIAN_LEAP_YEAR_DAYS_def split: if_splits)
    then have "(m - 1) * 30 + d \<le> 365"
      using m d30 by (cases "m = 13") auto
    then have x: "0 \<le> x" "x \<le> 364"
      using m d(1) by (auto simp: x_def)
    show ?thesis
      using createEthiopianDate_decode [OF c r x] dn xq xm yr by simp
  qed
qed

text \<open>
  Claim C10. On the Ethiopian side the day number and its decoding are inverse: for
  every date with Year at least 1, Month from 1 to 13 and Day from 1 to the length of
  that month (the sixth day of Pagume in a leap year included),
  \<open>createEthiopianDate (getDayNumber e)\<close> is \<open>e\<close>. The Year is at most \<open>10^13\<close>, so that
  the day number is below \<open>2^53\<close> and the code computes it exactly.
\<close>

theorem createEthiopianDate_getDayNumber:
  assumes "1 \<le> Year e" and "Year e \<le> 10000000000000"
    and "1 \<le> Month e" and "Month e \<le> 13"
    and "1 \<le> Day e" and "Day e \<le> getEthiopianMonthLength (Month e) (Year e)"
  shows "createEthiopianDate (getDayNumber e) = e"
proof -
  obtain d m y where e: "e = \<lparr>Day = d, Month = m, Year = y\<rparr>"
    by (cases e)
  show ?thesis
    using assms unfolding e by (simp add: createEthiopianDate_getDayNumber_fields)
qed

theorem createEthiopianDate_getDayNumber_witness:
  "createEthiopianDate (getDayNumber \<lparr>Day = 6, Month = 13, Year = 2015\<rparr>)
     = \<lparr>Day = 6, Month = 13, Year = 2015\<rparr>"
  by (rule createEthiopianDate_getDayNumber)
     (simp_all add: getEthiopianMonthLength_def isEthiopianLeapYear_def
        ETHIOPIAN_LEAP_YEAR_DAYS_def)

section \<open>Comparison\<close>

lemma getDayNumber_closed:
  assumes "0 \<le> Year e"
  shows "getDayNumber e = 365 * Year e + Year e div 4 + (Month e - 1) * 30 + Day e - 1"
proof -
  have "Year e = 4 * (Year e div 4) + Year e mod 4" by simp
  then have "1461 * (Year e div 4) + 365 * (Year e mod 4) = 365 * Year e + Year e div 4"
    by linarith
  then show ?thesis
    using assms by (simp add: getDayNumber_def Let_def smod_nonneg ETHIOPIAN_DAYS_IN_MONTH_def)
qed

lemma valid_day_in_year:
  assumes "isValidEthiopianDate e"
  shows "0 \<le> (Month e - 1) * 30 + Day e - 1"
    and "(Month e - 1) * 30 + Day e - 1 \<le> (if Year e mod 4 = 3 then 365 else 364)"
proof -
  note f = valid_fields [OF assms]
  show "0 \<le> (Month e - 1) * 30 + Day e - 1" using f by auto
  have y: "0 \<le> Year e" using f by simp
  show "(Month e - 1) * 30 + Day e - 1 \<le> (if Year e mod 4 = 3 then 365 else 364)"
  proof (cases "Month e = 13")
    case True
    then show ?thesis
      using f(6) y by (auto simp: getEthiopianMonthLength_def isEthiopianLeapYear_def smod_nonneg
          ETHIOPIAN_LEAP_YEAR_DAYS_def ETHIOPIAN_NORMAL_YEAR_DAYS_def split: if_splits)
  next
    case False
    then have "Month e \<le> 12" "Day e \<le> 30"
      using f by (auto simp: getEthiopianMonthLength_def ETHIOPIAN_DAYS_IN_MONTH_def)
    then show ?thesis by auto
  qed
qed

lemma getDayNumber_year_mono:
  assumes a: "isValidEthiopianDate a" and b: "isValidEthiopianDate b"
    and lt: "Year a < Year b"
  shows "getDayNumber a < getDayNumber b"
proof -
  have ya: "0 \<le> Year a" and yb: "0 \<le> Year b"
    using valid_fields(1) [OF a] valid_fields(1) [OF b] by auto
  have step: "(Year a + 1) div 4 = Year a div 4 + (if Year a mod 4 = 3 then 1 else 0)"
    by presburger
  have "(Year a + 1) div 4 \<le> Year b div 4"
    using lt by (intro zdiv_mono1) auto
  then have "365 * Year a + Year a div 4 + (if Year a mod 4 = 3 then 366 else 365)
             \<le> 365 * Year b + Year b div 4"
    using lt step by (auto split: if_splits)
  then show ?thesis
    using valid_day_in_year [OF a] valid_day_in_year(1) [OF b]
    by (simp add: getDayNumber_closed ya yb split: if_splits)
qed

lemma getDayNumber_lex_mono:
  assumes a: "isValidEthiopianDate a" and b: "isValidEthiopianDate b"
    and lt: "lexLess a b"
  shows "getDayNumber a < getDayNumber b"
proof (cases "Year a < Year b")
  case True
  then show ?thesis by (rule getDayNumber_year_mono [OF a b])
next
  case False
  then have y: "Year a = Year b" using lt by (auto simp: lexLess_def)
  have ya: "0 \<le> Year a" and yb: "0 \<le> Year b"
    using valid_fields(1) [OF a] valid_fields(1) [OF b] by auto
  have da: "1 \<le> Day a" "Day a \<le> 30" and db: "1 \<le> Day b"
    using valid_fields [OF a] valid_fields [OF b]
    by (auto simp: getEthiopianMonthLength_def ETHIOPIAN_DAYS_IN_MONTH_def
        ETHIOPIAN_LEAP_YEAR_DAYS_def ETHIOPIAN_NORMAL_YEAR_DAYS_def split: if_splits)
  from lt y consider "Month a < Month b" | "Month a = Month b" "Day a < Day b"
    by (auto simp: lexLess_def)
  then show ?thesis
  proof cases
    case 1
    then show ?thesis using y da db by (simp add: getDayNumber_closed ya yb)
  next
    case 2
    then show ?thesis using y by (simp add: getDayNumber_closed ya yb)
  qed
qed

lemma compare_lex: "(compareEthiopianDates a b = - 1) = lexLess a b"
  by (auto simp: compareEthiopianDates_def lexLess_def)

lemma compare_values: "compareEthiopianDates a b \<in> {- 1, 0, 1}"
  by (simp add: compareEthiopianDates_def)

lemma compare_zero: "(compareEthiopianDates a b = 0) = (a = b)"
  by (cases a; cases b) (auto simp: compareEthiopianDates_def)

lemma compare_flip: "compareEthiopianDates b a = - compareEthiopianDates a b"
  by (auto simp: compareEthiopianDates_def)

lemma compare_trans:
  "compareEthiopianDates a b = - 1 \<Longrightarrow> compareEthiopianDates b c = - 1
   \<Longrightarrow> compareEthiopianDates a c = - 1"
  unfolding compare_lex lexLess_def by auto

lemma compare_neg: "(compareEthiopianDates a b < 0) = lexLess a b"
  by (auto simp: compareEthiopianDates_def lexLess_def)

lemma compare_dayNumber:
  assumes a: "isValidEthiopianDate a" and b: "isValidEthiopianDate b"
  shows "(compareEthiopianDates a b < 0) = (getDayNumber a < getDayNumber b)"
    and "(compareEthiopianDates a b = 0) = (getDayNumber a = getDayNumber b)"
proof -
  have tri: "lexLess a b \<or> a = b \<or> lexLess b a"
    by (cases a; cases b) (auto simp: lexLess_def)
  have ab: "lexLess a b \<Longrightarrow> getDayNumber a < getDayNumber b"
    by (rule getDayNumber_lex_mono [OF a b])
  have ba: "lexLess b a \<Longrightarrow> getDayNumber b < getDayNumber a"
    by (rule getDayNumber_lex_mono [OF b a])
  show "(compareEthiopianDates a b < 0) = (getDayNumber a < getDayNumber b)"
    unfolding compare_neg using tri ab ba by auto
  show "(compareEthiopianDates a b = 0) = (getDayNumber a = getDayNumber b)"
    unfolding compare_zero using tri ab ba by auto
qed

text \<open>
  Claim C8. \<open>compareEthiopianDates\<close> returns only -1, 0 or 1; it returns -1 exactly
  when the first date is before the second in the lexicographic order on
  (Year, Month, Day), 1 exactly when it is after, and 0 exactly when the two are
  equal; that order is irreflexive, transitive and total, so the comparison is a
  strict total order. On valid dates it agrees with the order of the day numbers:
  the result is negative exactly when the first day number is smaller, and zero
  exactly when the day numbers are equal.
\<close>

theorem compareEthiopianDates_order:
  "compareEthiopianDates a b \<in> {- 1, 0, 1}
   \<and> (compareEthiopianDates a b = - 1) = lexLess a b
   \<and> (compareEthiopianDates a b = 1) = lexLess b a
   \<and> (compareEthiopianDates a b = 0) = (a = b)
   \<and> \<not> lexLess a a
   \<and> (lexLess a b \<longrightarrow> lexLess b c \<longrightarrow> lexLess a c)
   \<and> (lexLess a b \<or> a = b \<or> lexLess b a)
   \<and> (isValidEthiopianDate a \<longrightarrow> isValidEthiopianDate b \<longrightarrow>
        (compareEthiopianDates a b < 0) = (getDayNumber a < getDayNumber b)
        \<and> (compareEthiopianDates a b = 0) = (getDayNumber a = getDayNumber b))"
proof -
  have "(compareEthiopianDates a b = 1) = lexLess b a"
    using compare_lex [of b a] compare_flip [of a b] by auto
  moreover have "\<not> lexLess a a" by (simp add: lexLess_def)
  moreover have "lexLess a b \<longrightarrow> lexLess b c \<longrightarrow> lexLess a c"
    by (auto simp: lexLess_def)
  moreover have "lexLess a b \<or> a = b \<or> lexLess b a"
    by (cases a; cases b) (auto simp: lexLess_def)
  ultimately show ?thesis
    using compare_values [of a b] compare_lex [of a b] compare_zero [of a b]
      compare_dayNumber [of a b] by blast
qed

theorem compareEthiopianDates_order_witness:
  "isValidEthiopianDate \<lparr>Day = 30, Month = 12, Year = 2015\<rparr>
   \<and> isValidEthiopianDate \<lparr>Day = 1, Month = 13, Year = 2015\<rparr>
   \<and> compareEthiopianDates \<lparr>Day = 30, Month = 12, Year = 2015\<rparr>
         \<lparr>Day = 1, Month = 13, Year = 2015\<rparr> = - 1
   \<and> getDayNumber \<lparr>Day = 30, Month = 12, Year = 2015\<rparr>
       < getDayNumber \<lparr>Day = 1, Month = 13, Year = 2015\<rparr>
   \<and> lexLess \<lparr>Day = 30, Month = 12, Year = 2015\<rparr> \<lparr>Day = 1, Month = 1, Year = 2016\<rparr>"
proof -
  let ?a = "\<lparr>Day = 30, Month = 12, Year = 2015\<rparr>"
  let ?b = "\<lparr>Day = 1, Month = 13, Year = 2015\<rparr>"
  let ?c = "\<lparr>Day = 1, Month = 1, Year = 2016\<rparr>"
  have v: "isValidEthiopianDate ?a" "isValidEthiopianDate ?b"
    by code_simp+
  have l: "lexLess ?a ?b" "lexLess ?b ?c"
    by code_simp+
  note t = compareEthiopianDates_order [of ?a ?b ?c]
  from t l(1) have c: "compareEthiopianDates ?a ?b = - 1" by blast
  from t v have "(compareEthiopianDates ?a ?b < 0) = (getDayNumber ?a < getDayNumber ?b)"
    by blast
  with c have d: "getDayNumber ?a < getDayNumber ?b" by simp
  from t l have "lexLess ?a ?c" by blast
  with v c d show ?thesis by blast
qed

section \<open>Adding years and days\<close>

text \<open>
  Claim C6. For every valid Ethiopian date \<open>e\<close> and every integer \<open>n\<close> whose new
  year \<open>Year e + n\<close> is from 0 to below \<open>2^53\<close> (where the code adds exactly),
  \<open>addYearsToEthiopianDate e n\<close> returns the date with the same Day and Month and
  the Year \<open>Year e + n\<close>, except when \<open>e\<close> is the sixth day of month 13 and
  \<open>Year e + n\<close> is not an Ethiopian leap year: then it returns day 5 of month 13 of
  that year.
\<close>

theorem addYearsToEthiopianDate_result:
  assumes "isValidEthiopianDate e"
    and "0 \<le> Year e + n" and "Year e + n < 9007199254740992"
  shows "addYearsToEthiopianDate e n =
           Inr (if Month e = 13 \<and> Day e = 6 \<and> \<not> isEthiopianLeapYear (Year e + n)
                then \<lparr>Day = 5, Month = 13, Year = Year e + n\<rparr>
                else \<lparr>Day = Day e, Month = Month e, Year = Year e + n\<rparr>)"
  using assms by (simp add: addYearsToEthiopianDate_def Let_def)

theorem addYearsToEthiopianDate_result_witness:
  "addYearsToEthiopianDate \<lparr>Day = 6, Month = 13, Year = 2015\<rparr> 1
     = Inr \<lparr>Day = 5, Month = 13, Year = 2016\<rparr>
   \<and> addYearsToEthiopianDate \<lparr>Day = 6, Month = 13, Year = 2015\<rparr> 4
     = Inr \<lparr>Day = 6, Month = 13, Year = 2019\<rparr>"
proof -
  have v: "isValidEthiopianDate \<lparr>Day = 6, Month = 13, Year = 2015\<rparr>"
    by code_simp
  have l: "\<not> isEthiopianLeapYear 2016" "isEthiopianLeapYear 2019"
    by code_simp+
  show ?thesis
    using addYearsToEthiopianDate_result [OF v, of 1]
      addYearsToEthiopianDate_result [OF v, of 4] l by simp
qed

text \<open>
  Claim C7 says that the result of \<open>addYearsToEthiopianDate\<close> on a valid date is
  always valid. The function does not look at the range of the new year: one year
  after a date of the year 3000 it returns a date of the year 3001, which
  \<open>isValidEthiopianDate\<close> rejects.
\<close>

theorem addYears_invalid_result_counterexample:
  "isValidEthiopianDate \<lparr>Day = 1, Month = 1, Year = 3000\<rparr>
   \<and> addYearsToEthiopianDate \<lparr>Day = 1, Month = 1, Year = 3000\<rparr> 1
       = Inr \<lparr>Day = 1, Month = 1, Year = 3001\<rparr>
   \<and> \<not> isValidEthiopianDate \<lparr>Day = 1, Month = 1, Year = 3001\<rparr>"
  by code_simp

lemma monthLength_ge_5: "5 \<le> getEthiopianMonthLength m y"
  by (simp add: getEthiopianMonthLength_def ETHIOPIAN_DAYS_IN_MONTH_def
      ETHIOPIAN_LEAP_YEAR_DAYS_def ETHIOPIAN_NORMAL_YEAR_DAYS_def)

lemma valid_ranges_iff:
  "isValidEthiopianDate r =
     (1000 \<le> Year r \<and> Year r \<le> 3000 \<and> 1 \<le> Month r \<and> Month r \<le> 13 \<and> 1 \<le> Day r
      \<and> Day r \<le> getEthiopianMonthLength (Month r) (Year r))"
  by (auto simp: isValidEthiopianDate_def)

text \<open>
  Claim C7, amended. For every valid Ethiopian date \<open>e\<close> and every integer \<open>n\<close>,
  \<open>addYearsToEthiopianDate e n\<close> returns a date whose Month is from 1 to 13 and
  whose Day is from 1 to the length of that month in the new year; the result
  satisfies \<open>isValidEthiopianDate\<close> exactly when \<open>Year e + n\<close> is from 1000 to 3000.
\<close>

theorem addYearsToEthiopianDate_valid:
  assumes "isValidEthiopianDate e"
  shows "\<exists>r. addYearsToEthiopianDate e n = Inr r
           \<and> 1 \<le> Month r \<and> Month r \<le> 13 \<and> 1 \<le> Day r
           \<and> Day r \<le> getEthiopianMonthLength (Month r) (Year r)
           \<and> isValidEthiopianDate r = (1000 \<le> Year e + n \<and> Year e + n \<le> 3000)"
proof -
  note f = valid_fields [OF assms]
  define r where "r = (if Month e = 13 \<and> Day e = 6 \<and> \<not> isEthiopianLeapYear (Year e + n)
                then \<lparr>Day = 5, Month = 13, Year = Year e + n\<rparr>
                else \<lparr>Day = Day e, Month = Month e, Year = Year e + n\<rparr>)"
  have res: "addYearsToEthiopianDate e n = Inr r"
    using assms by (simp add: addYearsToEthiopianDate_def Let_def r_def)
  have y: "Year r = Year e + n" by (simp add: r_def)
  have m: "1 \<le> Month r" "Month r \<le> 13" using f(3,4) by (auto simp: r_def)
  have d1: "1 \<le> Day r" using f(5) by (auto simp: r_def)
  have d2: "Day r \<le> getEthiopianMonthLength (Month r) (Year r)"
  proof (cases "Month e = 13")
    case False
    then have "r = \<lparr>Day = Day e, Month = Month e, Year = Year e + n\<rparr>"
      by (simp add: r_def)
    moreover have "Day e \<le> 30"
      using f(6) monthLength_le_30 [of "Month e" "Year e"] by linarith
    ultimately show ?thesis
      using False by (simp add: getEthiopianMonthLength_def ETHIOPIAN_DAYS_IN_MONTH_def)
  next
    case m13: True
    show ?thesis
    proof (cases "Day e = 6")
      case True
      then show ?thesis
        using m13 by (simp add: r_def getEthiopianMonthLength_def
            ETHIOPIAN_LEAP_YEAR_DAYS_def ETHIOPIAN_NORMAL_YEAR_DAYS_def)
    next
      case False
      have "Day e \<le> 6"
        using f(6) m13 by (simp add: getEthiopianMonthLength_def
            ETHIOPIAN_LEAP_YEAR_DAYS_def ETHIOPIAN_NORMAL_YEAR_DAYS_def split: if_splits)
      then have "Day e \<le> 5" using False by simp
      moreover have "r = \<lparr>Day = Day e, Month = Month e, Year = Year e + n\<rparr>"
        using False by (simp add: r_def)
      ultimately show ?thesis
        using monthLength_ge_5 [of "Month e" "Year e + n"] by simp
    qed
  qed
  have "isValidEthiopianDate r = (1000 \<le> Year e + n \<and> Year e + n \<le> 3000)"
    unfolding valid_ranges_iff [of r] using y m d1 d2 by simp
  then show ?thesis using res m d1 d2 by blast
qed

theorem addYearsToEthiopianDate_valid_witness:
  "\<exists>r. addYearsToEthiopianDate \<lparr>Day = 6, Month = 13, Year = 2015\<rparr> 1 = Inr r
       \<and> isValidEthiopianDate r"
proof -
  have v: "isValidEthiopianDate \<lparr>Day = 6, Month = 13, Year = 2015\<rparr>"
    by code_simp
  show ?thesis
    using addYearsToEthiopianDate_valid [OF v, of 1] by auto
qed

text \<open>
  Claim C9. \<open>addDaysToEthiopianDate\<close> and \<open>addYearsToEthiopianDate\<close> throw exactly
  when their date fails \<open>isValidEthiopianDate\<close>, whatever the number to add; the
  message of the error is the text "Invalid Ethiopian date " followed by the Day,
  the Month and the Year of the offending date, separated by hyphens. On a valid
  date neither throws.
\<close>

theorem add_functions_throw_iff_invalid:
  "isl (addDaysToEthiopianDate e n) = (\<not> isValidEthiopianDate e)
   \<and> isl (addYearsToEthiopianDate e k) = (\<not> isValidEthiopianDate e)
   \<and> (\<not> isValidEthiopianDate e \<longrightarrow>
        addDaysToEthiopianDate e n =
          Inl (Error (''Invalid Ethiopian date '' @ showInt (Day e) @ ''-''
                      @ showInt (Month e) @ ''-'' @ showInt (Year e)))
        \<and> addYearsToEthiopianDate e k =
          Inl (Error (''Invalid Ethiopian date '' @ showInt (Day e) @ ''-''
                      @ showInt (Month e) @ ''-'' @ showInt (Year e))))"
  by (simp add: addDaysToEthiopianDate_def addYearsToEthiopianDate_def Let_def
      invalidDateMessage_def)

theorem add_functions_throw_iff_invalid_witness:
  "\<not> isValidEthiopianDate \<lparr>Day = 31, Month = 1, Year = 2016\<rparr>
   \<and> addDaysToEthiopianDate \<lparr>Day = 31, Month = 1, Year = 2016\<rparr> 5
       = Inl (Error ''Invalid Ethiopian date 31-1-2016'')
   \<and> addYearsToEthiopianDate \<lparr>Day = 31, Month = 1, Year = 2016\<rparr> 5
       = Inl (Error ''Invalid Ethiopian date 31-1-2016'')"
proof -
  have v: "\<not> isValidEthiopianDate \<lparr>Day = 31, Month = 1, Year = 2016\<rparr>"
    by code_simp
  have s: "showInt 31 = ''31''" "showInt 1 = ''1''" "showInt 2016 = ''2016''"
    by code_simp+
  show ?thesis
    using add_functions_throw_iff_invalid
      [of "\<lparr>Day = 31, Month = 1, Year = 2016\<rparr>" 5 5] v s
    by simp
qed

text \<open>
  Claim C2 says that adding zero days gives the date back. The function decodes the
  day number plus one plus the days to add, so adding zero days gives the next
  day: from 1 Meskerem 2016 it returns 2 Meskerem 2016.
\<close>

theorem addDaysToEthiopianDate_zero_next_day:
  "isValidEthiopianDate \<lparr>Day = 1, Month = 1, Year = 2016\<rparr>
   \<and> addDaysToEthiopianDate \<lparr>Day = 1, Month = 1, Year = 2016\<rparr> 0
       = Inr \<lparr>Day = 2, Month = 1, Year = 2016\<rparr>"
  by code_simp

section \<open>Conversions at given dates\<close>

text \<open>
  Claim C3 says that \<open>toEthiopian\<close> takes 17 July 2025 to day 11 of month 11 of
  2017. By the formulas and the offset 2431 it is day 10.
\<close>

theorem toEthiopian_2025_07_17_counterexample:
  "toEthiopian (newDate 2025 6 17) \<noteq> \<lparr>Day = 11, Month = 11, Year = 2017\<rparr>"
  by code_simp

text \<open>
  Claim C3, amended. \<open>toEthiopian\<close> takes the Gregorian date 17 July 2025 to the
  Ethiopian date with Day 10, Month 11 and Year 2017.
\<close>

theorem toEthiopian_2025_07_17:
  "toEthiopian (newDate 2025 6 17) = \<lparr>Day = 10, Month = 11, Year = 2017\<rparr>"
  by code_simp

section \<open>The Gregorian day number\<close>

text \<open>
  The two loops are unfolded by hand, one turn at a time.
\<close>

declare addGregorianMonths_loop.simps [simp del]
declare monthWalk.simps [simp del]


lemma smod_zero_iff: "((a::int) smod b = 0) = (a mod b = 0)"
  by (auto simp: signed_modulo_int_def mod_eq_0_iff_dvd sgn_if split: if_splits)

lemma monthLength_bounds: "28 \<le> getGregorianMonthLength m y" "getGregorianMonthLength m y \<le> 31"
  by (auto simp: getGregorianMonthLength_def)

lemma loop_upper_step:
  "cur \<le> m \<Longrightarrow> addGregorianMonths_loop cur (m + 1) y t
     = addGregorianMonths_loop cur m y t + getGregorianMonthLength m y"
proof (induction cur m y t rule: addGregorianMonths_loop.induct)
  case (1 cur m y t)
  show ?case
  proof (cases "cur < m")
    case True
    then have "addGregorianMonths_loop (cur + 1) (m + 1) y (t + getGregorianMonthLength cur y)
               = addGregorianMonths_loop (cur + 1) m y (t + getGregorianMonthLength cur y)
                 + getGregorianMonthLength m y"
      using "1.IH" by simp
    then show ?thesis
      using True
      by (simp add: addGregorianMonths_loop.simps [of cur "m + 1"]
          addGregorianMonths_loop.simps [of cur m])
  next
    case False
    then have "cur = m" using "1.prems" by simp
    then show ?thesis
      by (simp add: addGregorianMonths_loop.simps [of m "m + 1"]
          addGregorianMonths_loop.simps [of "m + 1" "m + 1"]
          addGregorianMonths_loop.simps [of m m])
  qed
qed

lemma addGregorianMonths_1: "addGregorianMonths 1 y = 0"
  by (simp add: addGregorianMonths_def addGregorianMonths_loop.simps [of 1 1])

lemma addGregorianMonths_step:
  "1 \<le> m \<Longrightarrow> addGregorianMonths (m + 1) y = addGregorianMonths m y + getGregorianMonthLength m y"
  by (simp add: addGregorianMonths_def loop_upper_step)

lemma addGregorianMonths_mono:
  assumes "1 \<le> m" "m \<le> m'"
  shows "addGregorianMonths m y \<le> addGregorianMonths m' y"
  using assms(2,1)
proof (induction m' rule: int_ge_induct)
  case base
  then show ?case by simp
next
  case (step i)
  then have "addGregorianMonths (i + 1) y = addGregorianMonths i y + getGregorianMonthLength i y"
    by (intro addGregorianMonths_step) simp
  then show ?case
    using step monthLength_bounds(1) [of i y] by linarith
qed

lemma addGregorianMonths_13: "addGregorianMonths 13 y = yearLength y"
  by (simp add: addGregorianMonths_def addGregorianMonths_loop.simps
      getGregorianMonthLength_def yearLength_def)

lemma addGregorianMonths_12: "addGregorianMonths 12 y + 31 = yearLength y"
  using addGregorianMonths_step [of 12 y] addGregorianMonths_13 [of y]
  by (simp add: getGregorianMonthLength_def)

lemma monthWalk_spec:
  assumes "1 \<le> m" and "1 \<le> r"
    and "addGregorianMonths m y + r \<le> yearLength y"
    and "monthWalk m y r = (m', d)"
  shows "m' \<le> 12 \<and> 1 \<le> m' \<and> 1 \<le> d \<and> d \<le> getGregorianMonthLength m' y
         \<and> addGregorianMonths m' y + d = addGregorianMonths m y + r"
  using assms
proof (induction m y r rule: monthWalk.induct)
  case (1 m y r)
  show ?case
  proof (cases "r \<le> getGregorianMonthLength m y")
    case True
    then have eq: "m' = m" "d = r"
      using "1.prems"(4) by (simp_all add: monthWalk.simps [of m y r])
    have "m \<le> 12"
    proof (rule ccontr)
      assume "\<not> m \<le> 12"
      then have "addGregorianMonths 13 y \<le> addGregorianMonths m y"
        by (intro addGregorianMonths_mono) auto
      then show False
        using "1.prems"(2,3) by (simp add: addGregorianMonths_13)
    qed
    then show ?thesis using eq True "1.prems"(1,2) by simp
  next
    case False
    let ?l = "getGregorianMonthLength m y"
    have w: "monthWalk (m + 1) y (r - ?l) = (m', d)"
      using False "1.prems"(4) by (simp add: monthWalk.simps [of m y r])
    have s: "addGregorianMonths (m + 1) y = addGregorianMonths m y + ?l"
      using "1.prems"(1) by (rule addGregorianMonths_step)
    have "m' \<le> 12 \<and> 1 \<le> m' \<and> 1 \<le> d \<and> d \<le> getGregorianMonthLength m' y
         \<and> addGregorianMonths m' y + d = addGregorianMonths (m + 1) y + (r - ?l)"
      using "1.IH" [OF refl False] "1.prems"(1,3) False w s by simp
    then show ?thesis using s by simp
  qed
qed

lemma getGregorianDayNumber_eq:
  "getGregorianDayNumber g =
     daysThroughYear (fullYear g - 1) + addGregorianMonths (monthIndex g + 1) (fullYear g)
     + dayOfMonth g"
  by (simp add: getGregorianDayNumber_def daysThroughYear_def Let_def)

lemma daysThroughYear_closed: "daysThroughYear p = 365 * p + p div 4 - p div 100 + p div 400"
  by (simp add: daysThroughYear_def Let_def algebra_simps)

lemma div_succ:
  fixes p k :: int
  assumes k: "0 < k"
  shows "(p + 1) div k = p div k + (if (p + 1) mod k = 0 then 1 else 0)"
proof -
  define q where "q = p div k"
  define r where "r = p mod k"
  have p: "p = k * q + r" and r: "0 \<le> r" "r < k"
    using k by (auto simp: q_def r_def)
  show ?thesis
  proof (cases "r + 1 < k")
    case True
    have "(p + 1) div k = q"
      by (rule int_div_pos_eq [where r = "r + 1"]) (use p r True in auto)
    moreover have "(p + 1) mod k = r + 1"
      by (rule int_mod_pos_eq [where q = q]) (use p r True in auto)
    ultimately show ?thesis using r by (simp add: q_def)
  next
    case False
    then have rk: "r + 1 = k" using r by simp
    have "(p + 1) div k = q + 1"
      by (rule int_div_pos_eq [where r = 0]) (use p rk k in \<open>auto simp: algebra_simps\<close>)
    moreover have "(p + 1) mod k = 0"
      by (rule int_mod_pos_eq [where q = "q + 1"]) (use p rk k in \<open>auto simp: algebra_simps\<close>)
    ultimately show ?thesis by (simp add: q_def)
  qed
qed

lemma isLeapYearGr_mod:
  "isLeapYearGr y = (y mod 4 = 0 \<and> (y mod 100 \<noteq> 0 \<or> y mod 400 = 0))"
  by (simp add: isLeapYearGr_def smod_zero_iff)

lemma mod_zero_trans:
  fixes y j k :: int
  assumes "j dvd k" and "y mod k = 0"
  shows "y mod j = 0"
proof -
  have "k dvd y" using assms(2) by (simp add: mod_eq_0_iff_dvd)
  with assms(1) have "j dvd y" by (rule dvd_trans)
  then show ?thesis by (simp add: mod_eq_0_iff_dvd)
qed

lemma daysThroughYear_step: "daysThroughYear (p + 1) = daysThroughYear p + yearLength (p + 1)"
proof -
  define b4 where "b4 \<longleftrightarrow> (p + 1) mod 4 = 0"
  define b100 where "b100 \<longleftrightarrow> (p + 1) mod 100 = 0"
  define b400 where "b400 \<longleftrightarrow> (p + 1) mod 400 = 0"
  have d4: "b4" if "b100"
    using that unfolding b4_def b100_def by (rule mod_zero_trans [rotated]) simp
  have d100: "b100" if "b400"
    using that unfolding b100_def b400_def by (rule mod_zero_trans [rotated]) simp
  have s4: "(p + 1) div 4 = p div 4 + (if b4 then 1 else 0)"
    unfolding b4_def by (rule div_succ) simp
  have s100: "(p + 1) div 100 = p div 100 + (if b100 then 1 else 0)"
    unfolding b100_def by (rule div_succ) simp
  have s400: "(p + 1) div 400 = p div 400 + (if b400 then 1 else 0)"
    unfolding b400_def by (rule div_succ) simp
  have yl: "yearLength (p + 1) = (if b4 \<and> (\<not> b100 \<or> b400) then 366 else 365)"
    unfolding yearLength_def isLeapYearGr_mod b4_def b100_def b400_def by (rule refl)
  show ?thesis
    unfolding daysThroughYear_closed s4 s100 s400 yl
    using d4 d100 by (cases b4; cases b100; cases b400) simp_all
qed

lemma yearLength_bounds: "365 \<le> yearLength y" "yearLength y \<le> 366"
  by (simp_all add: yearLength_def)

lemma daysThroughYear_mono:
  assumes "p \<le> p'"
  shows "daysThroughYear p \<le> daysThroughYear p'"
  using assms
proof (induction p' rule: int_ge_induct)
  case base
  then show ?case by simp
next
  case (step i)
  then show ?case
    using daysThroughYear_step [of i] yearLength_bounds(1) [of "i + 1"] by linarith
qed

lemma daysThroughYear_digits:
  fixes a h c s :: int
  assumes h: "0 \<le> h" "h \<le> 3" and c: "0 \<le> c" "c \<le> 24" and s: "0 \<le> s" "s \<le> 3"
  shows "daysThroughYear (400 * a + 100 * h + 4 * c + s)
         = 146097 * a + 36524 * h + 1461 * c + 365 * s"
proof -
  let ?Y = "400 * a + 100 * h + 4 * c + s"
  have q400: "?Y div 400 = a"
    by (rule int_div_pos_eq [where r = "100 * h + 4 * c + s"]) (use h c s in auto)
  have q100: "?Y div 100 = 4 * a + h"
    by (rule int_div_pos_eq [where r = "4 * c + s"]) (use h c s in auto)
  have q4: "?Y div 4 = 100 * a + 25 * h + c"
    by (rule int_div_pos_eq [where r = s]) (use h c s in auto)
  show ?thesis
    unfolding daysThroughYear_closed q400 q100 q4 by simp
qed

lemma cycle_bounds:
  fixes n :: int
  assumes n: "1 \<le> n"
    and a: "a = n div 146097" and r1: "r1 = n smod 146097"
    and h: "h = min (r1 div 36524) 3" and r2: "r2 = r1 - h * 36524"
    and c: "c = r2 div 1461" and r3: "r3 = r2 smod 1461"
    and s: "s = min (r3 div 365) 3" and r4: "r4 = r3 - s * 365"
  shows "0 \<le> a" "0 \<le> h" "h \<le> 3" "0 \<le> c" "c \<le> 24" "0 \<le> s" "s \<le> 3" "0 \<le> r4"
    and "n = 146097 * a + 36524 * h + 1461 * c + 365 * s + r4"
    and "r4 \<le> 364 \<or> (r4 = 365 \<and> s = 3 \<and> (c = 24 \<longrightarrow> h = 3))"
    and "r1 = 0 \<or> r2 = 0 \<or> r3 = 0 \<Longrightarrow> r4 = 0"
proof -
  have r1m: "r1 = n mod 146097" using n r1 by (simp add: smod_nonneg)
  have na: "n = 146097 * a + r1" unfolding a r1m by simp
  have r1b: "0 \<le> r1" "r1 < 146097" unfolding r1m by simp_all
  show a0: "0 \<le> a" unfolding a using n by (simp add: pos_imp_zdiv_nonneg_iff)
  have q1: "0 \<le> r1 div 36524" using r1b by (simp add: pos_imp_zdiv_nonneg_iff)
  show h0: "0 \<le> h" and h3: "h \<le> 3" unfolding h using q1 by simp_all
  have q1m: "r1 = 36524 * (r1 div 36524) + r1 mod 36524" by simp
  have m1: "0 \<le> r1 mod 36524" "r1 mod 36524 < 36524" by simp_all
  have r2b: "0 \<le> r2" "r2 \<le> 36524" "h < 3 \<Longrightarrow> r2 < 36524"
    using q1m m1 r1b unfolding r2 h by (auto simp: min_def split: if_splits)
  have r3m: "r3 = r2 mod 1461" using r2b r3 by (simp add: smod_nonneg)
  have r2c: "r2 = 1461 * c + r3" unfolding c r3m by simp
  have r3b: "0 \<le> r3" "r3 < 1461" unfolding r3m by simp_all
  show c0: "0 \<le> c" unfolding c using r2b by (simp add: pos_imp_zdiv_nonneg_iff)
  show c24: "c \<le> 24" using r2c r2b r3b by linarith
  have q3: "0 \<le> r3 div 365" using r3b by (simp add: pos_imp_zdiv_nonneg_iff)
  show s0: "0 \<le> s" and s3: "s \<le> 3" unfolding s using q3 by simp_all
  have q3m: "r3 = 365 * (r3 div 365) + r3 mod 365" by simp
  have m3: "0 \<le> r3 mod 365" "r3 mod 365 < 365" by simp_all
  have r4b: "0 \<le> r4" "r4 \<le> 365" "s < 3 \<Longrightarrow> r4 \<le> 364"
    using q3m m3 r3b unfolding r4 s by (auto simp: min_def split: if_splits)
  show "0 \<le> r4" by (rule r4b)
  show "n = 146097 * a + 36524 * h + 1461 * c + 365 * s + r4"
    using na r2 r2c r4 by simp
  show "r4 \<le> 364 \<or> (r4 = 365 \<and> s = 3 \<and> (c = 24 \<longrightarrow> h = 3))"
  proof (cases "r4 \<le> 364")
    case True
    then show ?thesis by simp
  next
    case False
    have "\<not> s < 3" using False r4b(3) by blast
    then have e: "r4 = 365" "s = 3" using False r4b(2) s3 by simp_all
    have "h = 3" if "c = 24"
    proof (rule ccontr)
      assume "h \<noteq> 3"
      then have "r2 < 36524" using r2b(3) h3 by simp
      then show False using r2c r4 e that by simp
    qed
    then show ?thesis using e by simp
  qed
  show "r4 = 0" if "r1 = 0 \<or> r2 = 0 \<or> r3 = 0"
    using that r1b r2b r3b unfolding h r2 c r3m s r4 by auto
qed

lemma leap_fourth_year:
  fixes a h c :: int
  assumes h: "0 \<le> h" "h \<le> 3" and c: "0 \<le> c" "c \<le> 24" and e: "c = 24 \<longrightarrow> h = 3"
  shows "isLeapYearGr (1 + (400 * a + 100 * h + 4 * c + 3))"
proof -
  let ?y = "1 + (400 * a + 100 * h + 4 * c + 3)"
  have y4: "?y mod 4 = 0"
    by (rule int_mod_pos_eq [where q = "100 * a + 25 * h + c + 1"]) auto
  show ?thesis
  proof (cases "c = 24")
    case True
    then have "h = 3" using e by simp
    then have "?y mod 400 = 0"
      using True by (intro int_mod_pos_eq [where q = "a + 1"]) auto
    then show ?thesis using y4 by (simp add: isLeapYearGr_mod)
  next
    case False
    then have "c \<le> 23" using c by simp
    then have "?y mod 100 = 4 * c + 4"
      using c h by (intro int_mod_pos_eq [where q = "4 * a + h"]) auto
    then have "?y mod 100 \<noteq> 0" using c by simp
    then show ?thesis using y4 by (simp add: isLeapYearGr_mod)
  qed
qed

lemma gregorianDateFromDayNo_unfold:
  assumes a: "a = n div 146097" and r1: "r1 = n smod 146097"
    and h: "h = min (r1 div 36524) 3" and r2: "r2 = r1 - h * 36524"
    and c: "c = r2 div 1461" and r3: "r3 = r2 smod 1461"
    and s: "s = min (r3 div 365) 3" and r4: "r4 = r3 - s * 365"
    and z: "r1 = 0 \<or> r2 = 0 \<or> r3 = 0 \<Longrightarrow> r4 = 0"
  shows "gregorianDateFromDayNo n =
           (if r4 = 0 then newDate (400 * a + 100 * h + 4 * c + s) 11 31
            else case monthWalk 1 (1 + (400 * a + 100 * h + 4 * c + s)) r4 of
                   (month, day) \<Rightarrow> newDate (1 + (400 * a + 100 * h + 4 * c + s)) (month - 1) day)"
proof -
  consider "r1 = 0" | "r1 \<noteq> 0" "r2 = 0" | "r1 \<noteq> 0" "r2 \<noteq> 0" "r3 = 0"
    | "r1 \<noteq> 0" "r2 \<noteq> 0" "r3 \<noteq> 0"
    by blast
  then show ?thesis
  proof cases
    case 1
    then have "h = 0" "c = 0" "s = 0" "r4 = 0"
      unfolding h r2 c r3 s r4 by simp_all
    then show ?thesis
      using 1 unfolding gregorianDateFromDayNo_def Let_def a [symmetric] r1 [symmetric]
      by simp
  next
    case 2
    then have "c = 0" "s = 0" "r4 = 0"
      unfolding c r3 s r4 by simp_all
    then show ?thesis
      using 2 unfolding gregorianDateFromDayNo_def Let_def a [symmetric] r1 [symmetric]
        h [symmetric] r2 [symmetric]
      by simp
  next
    case 3
    then have "s = 0" "r4 = 0"
      unfolding s r4 by simp_all
    then show ?thesis
      using 3 unfolding gregorianDateFromDayNo_def Let_def a [symmetric] r1 [symmetric]
        h [symmetric] r2 [symmetric] c [symmetric] r3 [symmetric]
      by simp
  next
    case 4
    then show ?thesis
      unfolding gregorianDateFromDayNo_def Let_def a [symmetric] r1 [symmetric]
        h [symmetric] r2 [symmetric] c [symmetric] r3 [symmetric] s [symmetric] r4 [symmetric]
      by simp
  qed
qed

lemma newDate_fields:
  "100 \<le> y \<Longrightarrow> newDate y m d = \<lparr>fullYear = y, monthIndex = m, dayOfMonth = d\<rparr>"
  by (simp add: newDate_def)

lemma gregorianDateFromDayNo_inverse:
  assumes n: "36524 < n" and top: "n \<le> 100000000"
  shows "getGregorianDayNumber (gregorianDateFromDayNo n) = n"
    and "isCalendarDay (gregorianDateFromDayNo n)"
    and "100 \<le> fullYear (gregorianDateFromDayNo n)"
proof -
  define a where "a = n div 146097"
  define r1 where "r1 = n smod 146097"
  define h where "h = min (r1 div 36524) 3"
  define r2 where "r2 = r1 - h * 36524"
  define c where "c = r2 div 1461"
  define r3 where "r3 = r2 smod 1461"
  define s where "s = min (r3 div 365) 3"
  define r4 where "r4 = r3 - s * 365"
  define Y where "Y = 400 * a + 100 * h + 4 * c + s"
  have n1: "1 \<le> n" using n by simp
  note b = cycle_bounds [OF n1 a_def r1_def h_def r2_def c_def r3_def s_def r4_def]
  note u = gregorianDateFromDayNo_unfold
    [OF a_def r1_def h_def r2_def c_def r3_def s_def r4_def b(11), folded Y_def]
  have D: "daysThroughYear Y = n - r4"
    unfolding Y_def using daysThroughYear_digits [OF b(2,3,4,5,6,7), of a] b(9) by simp
  have r4le: "r4 \<le> 365" using b(10) by auto
  have Y100: "100 \<le> Y"
  proof (rule ccontr)
    assume "\<not> 100 \<le> Y"
    then have "400 * a + 100 * h + 4 * c + s \<le> 99" by (simp add: Y_def)
    then have "146097 * a + 36524 * h + 1461 * c + 365 * s + r4 \<le> 36524"
      using b(1,2,4,6) r4le by linarith
    then show False using b(9) n by simp
  qed
  have res: "getGregorianDayNumber (gregorianDateFromDayNo n) = n
             \<and> isCalendarDay (gregorianDateFromDayNo n)
             \<and> 100 \<le> fullYear (gregorianDateFromDayNo n)"
  proof (cases "r4 = 0")
    case True
    then have g: "gregorianDateFromDayNo n = \<lparr>fullYear = Y, monthIndex = 11, dayOfMonth = 31\<rparr>"
      using u Y100 by (simp add: newDate_fields)
    have "daysThroughYear (Y - 1 + 1) = daysThroughYear (Y - 1) + yearLength (Y - 1 + 1)"
      by (rule daysThroughYear_step)
    then have "daysThroughYear (Y - 1) + (addGregorianMonths 12 Y + 31) = daysThroughYear Y"
      by (simp add: addGregorianMonths_12)
    then have "getGregorianDayNumber (gregorianDateFromDayNo n) = n"
      unfolding g getGregorianDayNumber_eq using D True by simp
    moreover have "isCalendarDay (gregorianDateFromDayNo n)"
      unfolding g by (simp add: isCalendarDay_def getGregorianMonthLength_def)
    ultimately show ?thesis using Y100 by (simp add: g)
  next
    case False
    obtain m d where w: "monthWalk 1 (1 + Y) r4 = (m, d)"
      by (cases "monthWalk 1 (1 + Y) r4")
    have g: "gregorianDateFromDayNo n = \<lparr>fullYear = 1 + Y, monthIndex = m - 1, dayOfMonth = d\<rparr>"
      using u False w Y100 by (simp add: newDate_fields)
    have r41: "1 \<le> r4" using False b(8) by simp
    have "r4 \<le> yearLength (1 + Y)"
    proof (cases "r4 \<le> 364")
      case True
      then show ?thesis using yearLength_bounds(1) [of "1 + Y"] by linarith
    next
      case False
      then have e: "r4 = 365" "s = 3" "c = 24 \<longrightarrow> h = 3" using b(10) by auto
      have "isLeapYearGr (1 + (400 * a + 100 * h + 4 * c + 3))"
        using b(2,3,4,5) e(3) by (rule leap_fourth_year)
      then show ?thesis using e by (simp add: yearLength_def Y_def)
    qed
    then have "addGregorianMonths 1 (1 + Y) + r4 \<le> yearLength (1 + Y)"
      by (simp add: addGregorianMonths_1)
    from monthWalk_spec [OF _ r41 this w]
    have ms: "m \<le> 12" "1 \<le> m" "1 \<le> d" "d \<le> getGregorianMonthLength m (1 + Y)"
      "addGregorianMonths m (1 + Y) + d = r4"
      by (simp_all add: addGregorianMonths_1)
    have "getGregorianDayNumber (gregorianDateFromDayNo n) = n"
      unfolding g getGregorianDayNumber_eq using D ms(5) by simp
    moreover have "isCalendarDay (gregorianDateFromDayNo n)"
      unfolding g using ms by (simp add: isCalendarDay_def)
    ultimately show ?thesis using Y100 by (simp add: g)
  qed
  show "getGregorianDayNumber (gregorianDateFromDayNo n) = n"
    and "isCalendarDay (gregorianDateFromDayNo n)"
    and "100 \<le> fullYear (gregorianDateFromDayNo n)"
    using res by simp_all
qed

lemma calendarDay_in_year:
  assumes "isCalendarDay g"
  shows "1 \<le> addGregorianMonths (monthIndex g + 1) (fullYear g) + dayOfMonth g"
    and "addGregorianMonths (monthIndex g + 1) (fullYear g) + dayOfMonth g
         \<le> yearLength (fullYear g)"
proof -
  let ?m = "monthIndex g + 1" and ?y = "fullYear g"
  have m: "1 \<le> ?m" "?m \<le> 12" and d: "1 \<le> dayOfMonth g"
    "dayOfMonth g \<le> getGregorianMonthLength ?m ?y"
    using assms by (auto simp: isCalendarDay_def)
  have "addGregorianMonths 1 ?y \<le> addGregorianMonths ?m ?y"
    using m by (intro addGregorianMonths_mono) auto
  then show "1 \<le> addGregorianMonths ?m ?y + dayOfMonth g"
    using d by (simp add: addGregorianMonths_1)
  have "addGregorianMonths (?m + 1) ?y \<le> addGregorianMonths 13 ?y"
    using m by (intro addGregorianMonths_mono) auto
  then show "addGregorianMonths ?m ?y + dayOfMonth g \<le> yearLength ?y"
    using addGregorianMonths_step [OF m(1), of ?y] d(2) by (simp add: addGregorianMonths_13)
qed

lemma calendarDay_dayNumber_bounds:
  assumes "isCalendarDay g"
  shows "daysThroughYear (fullYear g - 1) < getGregorianDayNumber g"
    and "getGregorianDayNumber g \<le> daysThroughYear (fullYear g)"
proof -
  have "daysThroughYear (fullYear g - 1 + 1)
        = daysThroughYear (fullYear g - 1) + yearLength (fullYear g - 1 + 1)"
    by (rule daysThroughYear_step)
  then have s: "daysThroughYear (fullYear g) = daysThroughYear (fullYear g - 1) + yearLength (fullYear g)"
    by simp
  show "daysThroughYear (fullYear g - 1) < getGregorianDayNumber g"
    unfolding getGregorianDayNumber_eq using calendarDay_in_year(1) [OF assms] by linarith
  show "getGregorianDayNumber g \<le> daysThroughYear (fullYear g)"
    unfolding getGregorianDayNumber_eq s using calendarDay_in_year(2) [OF assms] by linarith
qed

lemma dayNumber_year_less:
  assumes g1: "isCalendarDay g1" and g2: "isCalendarDay g2"
    and lt: "fullYear g1 < fullYear g2"
  shows "getGregorianDayNumber g1 < getGregorianDayNumber g2"
proof -
  have "daysThroughYear (fullYear g1) \<le> daysThroughYear (fullYear g2 - 1)"
    using lt by (intro daysThroughYear_mono) simp
  then show ?thesis
    using calendarDay_dayNumber_bounds(2) [OF g1] calendarDay_dayNumber_bounds(1) [OF g2]
    by linarith
qed

lemma dayNumber_month_less:
  assumes g1: "isCalendarDay g1" and g2: "isCalendarDay g2"
    and y: "fullYear g1 = fullYear g2" and lt: "monthIndex g1 < monthIndex g2"
  shows "getGregorianDayNumber g1 < getGregorianDayNumber g2"
proof -
  let ?y = "fullYear g2"
  have m1: "1 \<le> monthIndex g1 + 1" and d1: "dayOfMonth g1 \<le> getGregorianMonthLength (monthIndex g1 + 1) ?y"
    and d2: "1 \<le> dayOfMonth g2"
    using g1 g2 y by (auto simp: isCalendarDay_def)
  have "addGregorianMonths (monthIndex g1 + 1 + 1) ?y \<le> addGregorianMonths (monthIndex g2 + 1) ?y"
    using m1 lt by (intro addGregorianMonths_mono) auto
  then show ?thesis
    unfolding getGregorianDayNumber_eq y
    using addGregorianMonths_step [OF m1, of ?y] d1 d2 by linarith
qed

lemma getGregorianDayNumber_inj:
  assumes g1: "isCalendarDay g1" and g2: "isCalendarDay g2"
    and eq: "getGregorianDayNumber g1 = getGregorianDayNumber g2"
  shows "g1 = g2"
proof -
  have y: "fullYear g1 = fullYear g2"
    using dayNumber_year_less [OF g1 g2] dayNumber_year_less [OF g2 g1] eq
    by (cases "fullYear g1" "fullYear g2" rule: linorder_cases) auto
  have m: "monthIndex g1 = monthIndex g2"
    using dayNumber_month_less [OF g1 g2 y] dayNumber_month_less [OF g2 g1 y [symmetric]] eq
    by (cases "monthIndex g1" "monthIndex g2" rule: linorder_cases) auto
  have d: "dayOfMonth g1 = dayOfMonth g2"
    using eq unfolding getGregorianDayNumber_eq y m by simp
  show ?thesis
    using y m d by (cases g1; cases g2) simp
qed

lemma gregorianDateFromDayNo_of_dayNumber:
  assumes g: "isCalendarDay g" and n: "36524 < getGregorianDayNumber g"
    and top: "getGregorianDayNumber g \<le> 100000000"
  shows "gregorianDateFromDayNo (getGregorianDayNumber g) = g"
  using gregorianDateFromDayNo_inverse(2) [OF n top] g
    gregorianDateFromDayNo_inverse(1) [OF n top]
  by (rule getGregorianDayNumber_inj)

section \<open>Round trips\<close>

lemma getDayNumber_createEthiopianDate:
  fixes n :: int
  assumes n: "0 \<le> n"
  shows "getDayNumber (createEthiopianDate n) = n"
    and "4 * (n div 1461) \<le> Year (createEthiopianDate n)"
    and "Year (createEthiopianDate n) \<le> 4 * (n div 1461) + 3"
proof -
  define c where "c = n div 1461"
  define r where "r = n mod 1461"
  have nr: "n = 1461 * c + r" and rb: "0 \<le> r" "r < 1461" and c0: "0 \<le> c"
    using n by (auto simp: c_def r_def pos_imp_zdiv_nonneg_iff)
  have rs: "n smod 1461 = r" using n by (simp add: smod_nonneg r_def)
  have res: "getDayNumber (createEthiopianDate n) = n
             \<and> 4 * c \<le> Year (createEthiopianDate n) \<and> Year (createEthiopianDate n) \<le> 4 * c + 3"
  proof (cases "r = 1460")
    case True
    have "createEthiopianDate n = \<lparr>Day = 6, Month = 13, Year = 4 * c + 3\<rparr>"
      unfolding nr True by (rule createEthiopianDate_decode_sixth [OF c0])
    moreover have "(4 * c + 3) div 4 = c"
      by (rule int_div_pos_eq [where r = 3]) auto
    moreover have "(4 * c + 3) mod 4 = 3"
      by (rule int_mod_pos_eq [where q = c]) auto
    ultimately show ?thesis
      using nr True c0 by (simp add: getDayNumber_encode)
  next
    case False
    define q where "q = r div 365"
    define x where "x = r mod 365"
    have rq: "r = 365 * q + x" and xb: "0 \<le> x" "x \<le> 364" and q0: "0 \<le> q"
      using rb by (auto simp: q_def x_def pos_imp_zdiv_nonneg_iff)
    have q3: "q \<le> 3" using rq xb rb False by linarith
    have cr: "createEthiopianDate n = \<lparr>Day = x mod 30 + 1, Month = x div 30 + 1, Year = 4 * c + q\<rparr>"
      unfolding nr rq by (rule createEthiopianDate_decode [OF c0 q0 q3 xb])
    have "(4 * c + q) div 4 = c"
      by (rule int_div_pos_eq [where r = q]) (use q0 q3 in auto)
    moreover have "(4 * c + q) mod 4 = q"
      by (rule int_mod_pos_eq [where q = c]) (use q0 q3 in auto)
    moreover have "x div 30 * 30 + x mod 30 = x" by simp
    ultimately have "getDayNumber (createEthiopianDate n) = n"
      unfolding cr using c0 q0 nr rq by (simp add: getDayNumber_encode)
    then show ?thesis using cr q0 q3 by simp
  qed
  show "getDayNumber (createEthiopianDate n) = n"
    and "4 * (n div 1461) \<le> Year (createEthiopianDate n)"
    and "Year (createEthiopianDate n) \<le> 4 * (n div 1461) + 3"
    using res by (simp_all add: c_def)
qed

lemma createEthiopianDate_negative_year:
  fixes n :: int
  assumes n: "n < 0"
  shows "Year (createEthiopianDate n) < 0"
proof -
  have c: "n div 1461 < 0" using n by (simp add: neg_imp_zdiv_neg_iff)
  have "n smod 1461 \<le> 0"
    using n by (simp add: signed_modulo_int_def sgn_if)
  then have q: "(n smod 1461) div 365 \<le> 0"
    by (simp add: div_nonpos_pos_le0)
  show ?thesis
    using c q by (simp add: createEthiopianDate_def Let_def)
qed

lemma createEthiopianDate_year_1000:
  fixes n :: int
  assumes y: "1000 \<le> Year (createEthiopianDate n)"
  shows "36524 < n"
proof (rule ccontr)
  assume "\<not> 36524 < n"
  then have le: "n \<le> 36524" by simp
  show False
  proof (cases "n < 0")
    case True
    then show ?thesis using createEthiopianDate_negative_year [of n] y by simp
  next
    case False
    then have n0: "0 \<le> n" by simp
    have "n div 1461 \<le> 36524 div 1461"
      using le by (rule zdiv_mono1) simp
    then have "n div 1461 \<le> 24" by simp
    then show ?thesis
      using getDayNumber_createEthiopianDate(3) [OF n0] y by linarith
  qed
qed

lemma valid_dayNumber_large:
  assumes "isValidEthiopianDate e"
  shows "365000 \<le> getDayNumber e"
proof -
  note f = valid_fields [OF assms]
  have "0 \<le> Year e div 4" using f(1) by (simp add: pos_imp_zdiv_nonneg_iff)
  then show ?thesis
    using f by (simp add: getDayNumber_closed)
qed

lemma valid_dayNumber_small:
  assumes "isValidEthiopianDate e"
  shows "getDayNumber e \<le> 1100000"
proof -
  note f = valid_fields [OF assms]
  have "Year e div 4 \<le> 3000 div 4" using f(2) by (rule zdiv_mono1) simp
  then have "Year e div 4 \<le> 750" by simp
  moreover have "Day e \<le> 30"
    using f(6) monthLength_le_30 [of "Month e" "Year e"] by linarith
  ultimately show ?thesis
    using f by (simp add: getDayNumber_closed)
qed

lemma toEthiopian_toGregorian:
  assumes v: "isValidEthiopianDate e"
  shows "toEthiopian (toGregorian e) = e"
proof -
  note f = valid_fields [OF v]
  have n: "36524 < getDayNumber e + 2431"
    using valid_dayNumber_large [OF v] by simp
  have top: "getDayNumber e + 2431 \<le> 100000000"
    using valid_dayNumber_small [OF v] by simp
  obtain d m y where e: "e = \<lparr>Day = d, Month = m, Year = y\<rparr>"
    by (cases e)
  have "createEthiopianDate (getDayNumber e) = e"
    using f unfolding e by (simp add: createEthiopianDate_getDayNumber_fields)
  then show ?thesis
    using gregorianDateFromDayNo_inverse(1) [OF n top]
    by (simp add: toEthiopian_def toGregorian_def ETHIOPIAN_CALENDAR_OFFSET_def)
qed

lemma toGregorian_toEthiopian:
  assumes r: "inSupportedRange g"
  shows "toGregorian (toEthiopian g) = g"
proof -
  let ?n = "getGregorianDayNumber g - 2431"
  have cal: "isCalendarDay g" and y: "1000 \<le> Year (createEthiopianDate ?n)"
    and y': "Year (createEthiopianDate ?n) \<le> 3000"
    using r by (simp_all add: inSupportedRange_def toEthiopian_def ETHIOPIAN_CALENDAR_OFFSET_def)
  have n: "36524 < ?n" using y by (rule createEthiopianDate_year_1000)
  then have n0: "0 \<le> ?n" by simp
  have "4 * (?n div 1461) \<le> 3000"
    using getDayNumber_createEthiopianDate(2) [OF n0] y' by linarith
  moreover have "?n = 1461 * (?n div 1461) + ?n mod 1461" by simp
  moreover have "?n mod 1461 < 1461" by simp
  ultimately have top: "getGregorianDayNumber g \<le> 100000000" by linarith
  have "getDayNumber (createEthiopianDate ?n) = ?n"
    using n0 by (rule getDayNumber_createEthiopianDate(1))
  moreover have "gregorianDateFromDayNo (getGregorianDayNumber g) = g"
    using cal by (rule gregorianDateFromDayNo_of_dayNumber) (use n top in simp_all)
  ultimately show ?thesis
    by (simp add: toEthiopian_def toGregorian_def ETHIOPIAN_CALENDAR_OFFSET_def)
qed

text \<open>
  Adding zero days never gives the date back: the result is the date of the next
  day number.
\<close>

lemma addDaysToEthiopianDate_zero_differs:
  assumes v: "isValidEthiopianDate e"
  shows "addDaysToEthiopianDate e 0 = Inr (createEthiopianDate (getDayNumber e + 1))"
    and "getDayNumber (createEthiopianDate (getDayNumber e + 1)) = getDayNumber e + 1"
    and "addDaysToEthiopianDate e 0 \<noteq> Inr e"
proof -
  have n: "0 \<le> getDayNumber e + 1"
    using valid_dayNumber_large [OF v] by simp
  show r: "addDaysToEthiopianDate e 0 = Inr (createEthiopianDate (getDayNumber e + 1))"
    using v by (simp add: addDaysToEthiopianDate_def)
  show d: "getDayNumber (createEthiopianDate (getDayNumber e + 1)) = getDayNumber e + 1"
    using n by (rule getDayNumber_createEthiopianDate(1))
  show "addDaysToEthiopianDate e 0 \<noteq> Inr e"
  proof
    assume "addDaysToEthiopianDate e 0 = Inr e"
    then have "createEthiopianDate (getDayNumber e + 1) = e" using r by simp
    then have "getDayNumber e = getDayNumber e + 1" using d by simp
    then show False by simp
  qed
qed

text \<open>
  Claim C1. The two conversions are inverse to each other: for every Ethiopian date
  \<open>e\<close> that \<open>isValidEthiopianDate\<close> accepts, \<open>toEthiopian (toGregorian e)\<close> is \<open>e\<close>,
  and for every Gregorian calendar day \<open>g\<close> of the supported range (the days whose
  Ethiopian year is from 1000 to 3000), \<open>toGregorian (toEthiopian g)\<close> is \<open>g\<close>.
\<close>

theorem conversions_inverse:
  "(isValidEthiopianDate e \<longrightarrow> toEthiopian (toGregorian e) = e)
   \<and> (inSupportedRange g \<longrightarrow> toGregorian (toEthiopian g) = g)"
  using toEthiopian_toGregorian toGregorian_toEthiopian by blast

theorem conversions_inverse_witness:
  "isValidEthiopianDate \<lparr>Day = 6, Month = 13, Year = 2015\<rparr>
   \<and> toEthiopian (toGregorian \<lparr>Day = 6, Month = 13, Year = 2015\<rparr>)
       = \<lparr>Day = 6, Month = 13, Year = 2015\<rparr>
   \<and> inSupportedRange \<lparr>fullYear = 2024, monthIndex = 1, dayOfMonth = 29\<rparr>
   \<and> toGregorian (toEthiopian \<lparr>fullYear = 2024, monthIndex = 1, dayOfMonth = 29\<rparr>)
       = \<lparr>fullYear = 2024, monthIndex = 1, dayOfMonth = 29\<rparr>"
proof -
  have v: "isValidEthiopianDate \<lparr>Day = 6, Month = 13, Year = 2015\<rparr>"
    by code_simp
  have r: "inSupportedRange \<lparr>fullYear = 2024, monthIndex = 1, dayOfMonth = 29\<rparr>"
    by code_simp
  show ?thesis
    using conversions_inverse [of "\<lparr>Day = 6, Month = 13, Year = 2015\<rparr>"
        "\<lparr>fullYear = 2024, monthIndex = 1, dayOfMonth = 29\<rparr>"] v r
    by blast
qed

section \<open>The last day of a Gregorian year\<close>

lemma gregorianDateFromDayNo_year_end:
  fixes a h c s :: int
  assumes a: "0 \<le> a" and h: "0 \<le> h" "h \<le> 3" and c: "0 \<le> c" "c \<le> 24"
    and s: "0 \<le> s" "s \<le> 3"
    and y: "100 \<le> 400 * a + 100 * h + 4 * c + s"
    and top: "146097 * a + 36524 * h + 1461 * c + 365 * s \<le> 100000000"
  shows "gregorianDateFromDayNo (146097 * a + 36524 * h + 1461 * c + 365 * s)
         = \<lparr>fullYear = 400 * a + 100 * h + 4 * c + s, monthIndex = 11, dayOfMonth = 31\<rparr>"
proof -
  let ?n = "146097 * a + 36524 * h + 1461 * c + 365 * s"
  let ?r1 = "36524 * h + 1461 * c + 365 * s"
  let ?r2 = "1461 * c + 365 * s"
  let ?r3 = "365 * s"
  have n0: "0 \<le> ?n" using a h c s by simp
  have qa: "?n div 146097 = a"
    by (rule int_div_pos_eq [where r = ?r1]) (use h c s in auto)
  have "?n mod 146097 = ?r1"
    by (rule int_mod_pos_eq [where q = a]) (use h c s in auto)
  then have ma: "?n smod 146097 = ?r1" using n0 by (simp add: smod_nonneg)
  have qh: "?r1 div 36524 = h"
    by (rule int_div_pos_eq [where r = ?r2]) (use c s in auto)
  then have mh: "min (?r1 div 36524) 3 = h" using h by simp
  have qc: "?r2 div 1461 = c"
    by (rule int_div_pos_eq [where r = ?r3]) (use s in auto)
  have "?r2 mod 1461 = ?r3"
    by (rule int_mod_pos_eq [where q = c]) (use s in auto)
  then have mc: "?r2 smod 1461 = ?r3" using c s by (simp add: smod_nonneg)
  have "?r3 div 365 = s" by simp
  then have ms: "min (?r3 div 365) 3 = s" using s by simp
  have u: "gregorianDateFromDayNo ?n =
           (if (0::int) = 0 then newDate (400 * a + 100 * h + 4 * c + s) 11 31
            else case monthWalk 1 (1 + (400 * a + 100 * h + 4 * c + s)) 0 of
                   (month, day) \<Rightarrow> newDate (1 + (400 * a + 100 * h + 4 * c + s)) (month - 1) day)"
  proof (rule gregorianDateFromDayNo_unfold [where ?r1.0 = ?r1 and ?r2.0 = ?r2 and ?r3.0 = ?r3])
    show "a = ?n div 146097" using qa by simp
    show "?r1 = ?n smod 146097" using ma by simp
    show "h = min (?r1 div 36524) 3" using mh by simp
    show "?r2 = ?r1 - h * 36524" by simp
    show "c = ?r2 div 1461" using qc by simp
    show "?r3 = ?r2 smod 1461" using mc by simp
    show "s = min (?r3 div 365) 3" using ms by simp
    show "0 = ?r3 - s * 365" by simp
    show "(0::int) = 0" by simp
  qed
  show ?thesis
    unfolding u using y by (simp add: newDate_fields)
qed

text \<open>
  So from the year 100 to the last day number of the host, a zero remainder at any
  of the four levels gives 31 December of the year that completes the cycle, not
  1 January of the next; the multiples of 146097 are the first level.
\<close>

lemma gregorianDateFromDayNo_multiple_146097:
  fixes k :: int
  assumes "0 < k" and "146097 * k \<le> 100000000"
  shows "gregorianDateFromDayNo (146097 * k)
         = \<lparr>fullYear = 400 * k, monthIndex = 11, dayOfMonth = 31\<rparr>"
  using gregorianDateFromDayNo_year_end [of k 0 0 0] assms by simp

text \<open>
  Claim C5. Every day number that leaves a zero remainder at one of the four levels
  of \<open>gregorianDateFromDayNo\<close> should give 31 December of the year that completes
  the cycle. Day number 365 is the day number of 31 December of the year 1, and it
  leaves a zero remainder after one single-year block; the function passes the
  year 1 to \<^verbatim>\<open>new Date\<close>, which reads the years 0 to 99 as 1900 to 1999, and the
  result is 31 December 1901.
\<close>

theorem zero_remainder_year_1_gives_1901:
  "getGregorianDayNumber \<lparr>fullYear = 1, monthIndex = 11, dayOfMonth = 31\<rparr> = 365
   \<and> gregorianDateFromDayNo 365 = \<lparr>fullYear = 1901, monthIndex = 11, dayOfMonth = 31\<rparr>
   \<and> gregorianDateFromDayNo 365 \<noteq> \<lparr>fullYear = 1, monthIndex = 11, dayOfMonth = 31\<rparr>"
  by code_simp

section \<open>The weekday of the first day of a month\<close>

lemma getUTCDay_range: "0 \<le> getUTCDay tz d" "getUTCDay tz d < 7"
  by (simp_all add: getUTCDay_def)

lemma getMonthStartDay_eq:
  "getMonthStartDay tz month year
     = getUTCDay tz (toGregorian \<lparr>Day = 1, Month = month, Year = year\<rparr>) + 1"
proof -
  let ?w = "getUTCDay tz (toGregorian \<lparr>Day = 1, Month = month, Year = year\<rparr>)"
  have "(if ?w = 0 then 7 else ?w) smod 7 = ?w"
    using getUTCDay_range [of tz "toGregorian \<lparr>Day = 1, Month = month, Year = year\<rparr>"]
    by (simp add: smod_nonneg)
  then show ?thesis by (simp add: getMonthStartDay_def Let_def)
qed

lemma getMonthStartDay_range:
  "1 \<le> getMonthStartDay tz month year" "getMonthStartDay tz month year \<le> 7"
  using getUTCDay_range [of tz "toGregorian \<lparr>Day = 1, Month = month, Year = year\<rparr>"]
  by (simp_all add: getMonthStartDay_eq)

text \<open>
  What \<open>getUTCDay\<close> reads, by the zone of the environment: the weekday of the local
  day in a zone at or behind UTC, the weekday of the day before in a zone ahead of
  UTC.
\<close>

lemma getUTCDay_at_or_behind_utc:
  assumes "- 1440 < tz" and "tz \<le> 0"
  shows "getUTCDay tz d = (esLocalDay d + 4) mod 7"
proof -
  have "(esLocalDay d * 1440 - tz) div 1440 = esLocalDay d"
    by (rule int_div_pos_eq [where r = "- tz"]) (use assms in auto)
  then show ?thesis by (simp add: getUTCDay_def)
qed

lemma getUTCDay_ahead_of_utc:
  assumes "0 < tz" and "tz \<le> 1440"
  shows "getUTCDay tz d = (esLocalDay d + 3) mod 7"
proof -
  have "(esLocalDay d * 1440 - tz) div 1440 = esLocalDay d - 1"
    by (rule int_div_pos_eq [where r = "1440 - tz"]) (use assms in auto)
  then show ?thesis by (simp add: getUTCDay_def add.commute)
qed

text \<open>
  So with Sunday as weekday 0 of the month's first day, \<open>getMonthStartDay\<close> returns
  1 for Sunday, 2 for Monday, up to 7 for Saturday in a zone at or behind UTC, and
  1 for Monday up to 7 for Sunday in a zone ahead of UTC.
\<close>

lemma getMonthStartDay_at_or_behind_utc:
  assumes "- 1440 < tz" and "tz \<le> 0"
  shows "getMonthStartDay tz month year
         = (esLocalDay (toGregorian \<lparr>Day = 1, Month = month, Year = year\<rparr>) + 4) mod 7 + 1"
  using assms by (simp add: getMonthStartDay_eq getUTCDay_at_or_behind_utc)

lemma getMonthStartDay_ahead_of_utc:
  assumes "0 < tz" and "tz \<le> 1440"
  shows "getMonthStartDay tz month year
         = (esLocalDay (toGregorian \<lparr>Day = 1, Month = month, Year = year\<rparr>) + 3) mod 7 + 1"
  using assms by (simp add: getMonthStartDay_eq getUTCDay_ahead_of_utc)

text \<open>
  The host's day count and the day number of the repository differ by a constant on
  calendar days, so the weekday the host reads is the day number modulo 7.
\<close>

lemma div_shift:
  fixes x k j :: int
  assumes "0 < k"
  shows "(x - k * j) div k = x div k - j"
proof (rule int_div_pos_eq [where r = "x mod k"])
  have "x = k * (x div k) + x mod k" by simp
  then show "x - k * j = k * (x div k - j) + x mod k"
    by (simp add: algebra_simps)
  show "0 \<le> x mod k" "x mod k < k" using assms by simp_all
qed

lemma esDayFromYear_eq: "esDayFromYear y = daysThroughYear (y - 1) - 719162"
proof -
  have "(y - 1969) div 4 = (y - 1) div 4 - 492"
    using div_shift [of 4 "y - 1" 492] by simp
  moreover have "(y - 1901) div 100 = (y - 1) div 100 - 19"
    using div_shift [of 100 "y - 1" 19] by simp
  moreover have "(y - 1601) div 400 = (y - 1) div 400 - 4"
    using div_shift [of 400 "y - 1" 4] by simp
  ultimately show ?thesis
    by (simp add: esDayFromYear_def daysThroughYear_closed)
qed

lemma esDayWithinYear_eq:
  assumes "0 \<le> m" "m \<le> 11"
  shows "esDayWithinYear m (esInLeapYear y) = addGregorianMonths (m + 1) y"
proof -
  have l: "esInLeapYear y = isLeapYearGr y"
    by (simp add: esInLeapYear_def isLeapYearGr_mod)
  from assms have "m = 0 \<or> m = 1 \<or> m = 2 \<or> m = 3 \<or> m = 4 \<or> m = 5 \<or> m = 6 \<or> m = 7
      \<or> m = 8 \<or> m = 9 \<or> m = 10 \<or> m = 11"
    by presburger
  then show ?thesis
    unfolding l
    by (elim disjE)
      (simp_all add: esDayWithinYear_def addGregorianMonths_def addGregorianMonths_loop.simps
        getGregorianMonthLength_def)
qed

lemma esLocalDay_eq:
  assumes "isCalendarDay g"
  shows "esLocalDay g = getGregorianDayNumber g - 719163"
proof -
  have "0 \<le> monthIndex g" "monthIndex g \<le> 11"
    using assms by (simp_all add: isCalendarDay_def)
  then show ?thesis
    by (simp add: esLocalDay_def esDayFromYear_eq esDayWithinYear_eq getGregorianDayNumber_eq)
qed

lemma getUTCDay_dayNumber:
  assumes g: "isCalendarDay g"
  shows "- 1440 < tz \<Longrightarrow> tz \<le> 0 \<Longrightarrow> getUTCDay tz g = getGregorianDayNumber g mod 7"
    and "0 < tz \<Longrightarrow> tz \<le> 1440 \<Longrightarrow> getUTCDay tz g = (getGregorianDayNumber g - 1) mod 7"
proof -
  have a: "(getGregorianDayNumber g - 719163 + 4) mod 7 = getGregorianDayNumber g mod 7"
    by presburger
  have b: "(getGregorianDayNumber g - 719163 + 3) mod 7 = (getGregorianDayNumber g - 1) mod 7"
    by presburger
  show "- 1440 < tz \<Longrightarrow> tz \<le> 0 \<Longrightarrow> getUTCDay tz g = getGregorianDayNumber g mod 7"
    using a by (simp add: getUTCDay_at_or_behind_utc esLocalDay_eq [OF g])
  show "0 < tz \<Longrightarrow> tz \<le> 1440 \<Longrightarrow> getUTCDay tz g = (getGregorianDayNumber g - 1) mod 7"
    using b by (simp add: getUTCDay_ahead_of_utc esLocalDay_eq [OF g])
qed

text \<open>
  Claim C4 says that \<open>getMonthStartDay\<close> returns a number from 1 to 7 that counts
  the weekday of the month's first day from Monday = 1 to Sunday = 7. The number is
  always from 1 to 7 (\<open>getMonthStartDay_range\<close>), but it is the weekday read by
  \<open>getUTCDay\<close> plus one (\<open>getMonthStartDay_eq\<close>). In an environment on UTC,
  1 Meskerem 2016 is 12 September 2023, \<open>getUTCDay\<close> reads 2 (a Tuesday), and
  \<open>getMonthStartDay\<close> returns 3 where the Monday-based number is 2.
\<close>

theorem getMonthStartDay_tuesday_is_3:
  "toGregorian \<lparr>Day = 1, Month = 1, Year = 2016\<rparr>
     = \<lparr>fullYear = 2023, monthIndex = 8, dayOfMonth = 12\<rparr>
   \<and> getUTCDay 0 \<lparr>fullYear = 2023, monthIndex = 8, dayOfMonth = 12\<rparr> = 2
   \<and> getMonthStartDay 0 1 2016 = 3"
  by code_simp

end
